theory Spec2Isabelle
  imports Main "HOL-Library.Multiset"
begin

section \<open>Host values\<close>

text \<open>
  The module \<^verbatim>\<open>scripts/ui-components.js\<close> keeps the state of the "Last Entries" panel in
  static fields of the class \<^verbatim>\<open>DeltaGreenUI\<close> and talks to the host (Foundry VTT, jQuery, the
  browser's timers) through calls that may throw. A thrown JavaScript exception is the
  value \<open>Inl Thrown\<close>.
\<close>

datatype error = Thrown

text \<open>
  An actor document as the panel reads it: \<^verbatim>\<open>actor.id\<close>, \<^verbatim>\<open>actor.name\<close>,
  \<^verbatim>\<open>actor.folder?.id\<close> (\<open>None\<close> when the actor is in no folder) and
  \<^verbatim>\<open>actor.getFlag(DeltaGreenUI.ID, key)\<close>, which returns a string, returns
  \<^verbatim>\<open>undefined\<close> (\<open>Inr None\<close>) or throws.
\<close>

record actor =
  actor_id :: string
  actor_name :: string
  actor_folder :: "string option"
  getFlag :: "string \<Rightarrow> error + string option"

section \<open>The ordering key of \<^verbatim>\<open>_getRecentActors\<close>\<close>

text \<open>\<^verbatim>\<open>aId.replace(/[^0-9]/g, '')\<close>: the characters \<^verbatim>\<open>0\<close> to \<^verbatim>\<open>9\<close> are kept.\<close>

definition isDigit :: "char \<Rightarrow> bool" where
  "isDigit c = (c \<in> set ''0123456789'')"

definition stripNonDigits :: "string \<Rightarrow> string" where
  "stripNonDigits s = filter isDigit s"

definition digitValue :: "char \<Rightarrow> nat" where
  "digitValue c = of_char c - 48"

definition decimalValue :: "string \<Rightarrow> nat" where
  "decimalValue ds = foldl (\<lambda>n c. 10 * n + digitValue c) 0 ds"

text \<open>
  A JavaScript number is an IEEE 754 binary64 value. \<^verbatim>\<open>parseInt\<close> of a string of decimal
  digits returns the double nearest to the integer the digits denote, ties going to the
  even significand. Integers below \<open>2 ^ 53\<close> are doubles; above, the 53 leading bits are
  kept and the rest is rounded. The value \<open>2 ^ 1024\<close> stands for \<^verbatim>\<open>Infinity\<close>.
\<close>

fun bitLength :: "nat \<Rightarrow> nat" where
  "bitLength n = (if n = 0 then 0 else Suc (bitLength (n div 2)))"

definition toNumber :: "nat \<Rightarrow> nat" where
  "toNumber n =
     (if n < 2 ^ 53 then n
      else let e = bitLength n - 53;
               q = n div 2 ^ e;
               r = n mod 2 ^ e;
               half = 2 ^ (e - 1);
               m = (if half < r \<or> (r = half \<and> odd q) then q + 1 else q)
           in min (m * 2 ^ e) (2 ^ 1024))"

definition parseInt :: "string \<Rightarrow> nat" where
  "parseInt ds = toNumber (decimalValue ds)"

text \<open>
  \<^verbatim>\<open>parseInt(aId.replace(/[^0-9]/g, '') || '0')\<close>: an id without a digit gives the string
  \<^verbatim>\<open>'0'\<close>.
\<close>

definition idNumber :: "string \<Rightarrow> nat" where
  "idNumber i = (let ds = stripNonDigits i in parseInt (if ds = [] then ''0'' else ds))"

text \<open>
  The comparator handed to \<^verbatim>\<open>sort\<close>: \<^verbatim>\<open>bNum - aNum\<close>. Only its sign is used by the
  sort, and the sign of a difference of two doubles is the sign of the exact difference
  (\<^verbatim>\<open>Infinity - Infinity\<close> is \<^verbatim>\<open>NaN\<close>, which \<^verbatim>\<open>sort\<close> reads as 0). The \<^verbatim>\<open>catch\<close> of
  the comparator is not reachable with ids that are strings.
\<close>

definition compareActors :: "actor \<Rightarrow> actor \<Rightarrow> int" where
  "compareActors a b = int (idNumber (actor_id b)) - int (idNumber (actor_id a))"

text \<open>
  \<^verbatim>\<open>Array.prototype.sort\<close> is the host's: ECMAScript requires it to be stable, so with a
  comparator that is a consistent ordering it returns the elements in the order a stable
  insertion sort gives.
\<close>

fun insertBy :: "('a \<Rightarrow> 'a \<Rightarrow> int) \<Rightarrow> 'a \<Rightarrow> 'a list \<Rightarrow> 'a list" where
  "insertBy cmp x [] = [x]"
| "insertBy cmp x (y # ys) = (if cmp x y \<le> 0 then x # y # ys else y # insertBy cmp x ys)"

definition arraySort :: "('a \<Rightarrow> 'a \<Rightarrow> int) \<Rightarrow> 'a list \<Rightarrow> 'a list" where
  "arraySort cmp xs = foldr (insertBy cmp) xs []"

text \<open>
  \<^verbatim>\<open>_getRecentActors(folder)\<close> (lines 1479 to 1502), with \<^verbatim>\<open>game.actors\<close> as the second
  argument and the folder as its id: filter, sort a copy, \<^verbatim>\<open>slice(0, Math.min(3, length))\<close>.
\<close>

definition inFolder :: "string \<Rightarrow> actor \<Rightarrow> bool" where
  "inFolder folder a = (actor_folder a = Some folder)"

definition getRecentActors :: "string \<Rightarrow> actor list \<Rightarrow> actor list" where
  "getRecentActors folder actors =
     (let allActors = filter (inFolder folder) actors;
          sortedActors = arraySort compareActors allActors
      in take (min 3 (length sortedActors)) sortedActors)"

text \<open>
  The integer the specification speaks of: the digits of the id read as a decimal
  numeral, 0 when there is none.
\<close>

definition idInteger :: "string \<Rightarrow> nat" where
  "idInteger i = decimalValue (stripNonDigits i)"

section \<open>The rendered rows of \<^verbatim>\<open>_generateActorsHTML\<close>\<close>

text \<open>\<^verbatim>\<open>value || fallback\<close> on a string or \<^verbatim>\<open>undefined\<close>: the empty string is falsy.\<close>

definition orElse :: "string option \<Rightarrow> string \<Rightarrow> string" where
  "orElse v d = (case v of None \<Rightarrow> d | Some x \<Rightarrow> if x = [] then d else x)"

text \<open>
  The inner \<^verbatim>\<open>try\<close> of the loop body: three assignments in a row, the first throwing
  \<^verbatim>\<open>getFlag\<close> leaves the later variables at their initial values.
\<close>

definition readFlags :: "actor \<Rightarrow> string \<times> string \<times> string" where
  "readFlags a =
     (case getFlag a ''firstName'' of
        Inl _ \<Rightarrow> ('''', ''UNKNOWN'', '''')
      | Inr f \<Rightarrow>
          (case getFlag a ''surname'' of
             Inl _ \<Rightarrow> (orElse f '''', ''UNKNOWN'', '''')
           | Inr r \<Rightarrow>
               (case getFlag a ''middleName'' of
                  Inl _ \<Rightarrow> (orElse f '''', orElse r ''UNKNOWN'', '''')
                | Inr m \<Rightarrow> (orElse f '''', orElse r ''UNKNOWN'', orElse m ''''))))"

definition entryLabel :: "actor \<Rightarrow> string" where
  "entryLabel a =
     (case readFlags a of (firstName, reference, middleName) \<Rightarrow>
        if firstName = [] \<and> reference = ''UNKNOWN'' then actor_name a
        else reference @ '' - '' @ firstName @ '' '' @ middleName)"

definition listItem :: "string \<Rightarrow> string \<Rightarrow> string" where
  "listItem i label =
     ''<li class=\"dg-result-item\" data-actor-id=\"'' @ i @ ''\">'' @ label @ ''</li>''"

text \<open>
  \<^verbatim>\<open>_generateActorsHTML(actors)\<close> appends one \<^verbatim>\<open><li>\<close> per actor to a string; the model
  keeps the rows apart, the string being their concatenation. The outer \<^verbatim>\<open>catch\<close> of the
  loop body is not reachable: string interpolation of strings does not throw.
\<close>

definition generateActorsHTML :: "actor list \<Rightarrow> string list" where
  "generateActorsHTML actors = map (\<lambda>a. listItem (actor_id a) (entryLabel a)) actors"

section \<open>The state of the panel\<close>

text \<open>
  The host's timers. \<^verbatim>\<open>setTimeout\<close> and \<^verbatim>\<open>setInterval\<close> hand out identifiers from one
  counter; the table holds the timers that are still pending. Three closures of the
  module are ever registered: the watchdog of \<^verbatim>\<open>loadLastEntries\<close>, the refresh tick
  that calls \<^verbatim>\<open>loadLastEntries\<close> and \<^verbatim>\<open>forceDisplayLastEntries\<close>, and the tick that
  \<^verbatim>\<open>loadLastEntries\<close> and \<^verbatim>\<open>_finishLoading\<close> register, which calls
  \<^verbatim>\<open>loadLastEntries\<close> only.
\<close>

datatype callback = Watchdog | RefreshFull | RefreshLoadOnly

record timer =
  repeating :: bool
  delay :: nat
  calls :: callback

text \<open>
  The static fields \<^verbatim>\<open>isLoadingEntries\<close>, \<^verbatim>\<open>lastSuccessfulLoad\<close>,
  \<^verbatim>\<open>consecutiveErrors\<close> and \<^verbatim>\<open>refreshIntervalId\<close> (\<^verbatim>\<open>null\<close> is \<open>None\<close>; the host's
  identifiers are positive, hence truthy), the host's timer table, and the part of the
  document the panel reads: whether a section titled \<^verbatim>\<open>LAST ENTRIES\<close> is found, and the
  rows of the list \<^verbatim>\<open>#dg-last-entries-list\<close>, \<open>None\<close> when the document has no such list.
  The list is the \<^verbatim>\<open>.dg-results-list\<close> of that section, as the module itself creates it.
  The counter of errors is a natural number: a double stops counting at \<open>2 ^ 53\<close> only.
\<close>

record dgui =
  isLoadingEntries :: bool
  lastSuccessfulLoad :: int
  consecutiveErrors :: nat
  refreshIntervalId :: "nat option"
  timers :: "nat \<rightharpoonup> timer"
  nextTimerId :: nat
  lastEntriesSection :: bool
  lastEntriesList :: "string list option"

text \<open>
  What the host answers during one synchronous call: \<^verbatim>\<open>Date.now()\<close> at the guard and in
  \<^verbatim>\<open>_finishLoading\<close>, \<^verbatim>\<open>isInterfaceActive()\<close>, \<^verbatim>\<open>game.folders.find\<close> for the folder
  named \<^verbatim>\<open>PC Records\<close> (its id), \<^verbatim>\<open>game.actors\<close>, whether writing the rows into the
  list throws, and whether the \<^verbatim>\<open>catch\<close> block's own access to the document throws.
\<close>

record host =
  dateNow :: int
  dateNowFinish :: int
  interfaceActive :: bool
  foldersFind :: "error + string option"
  gameActors :: "error + actor list"
  renderThrows :: bool
  handlerThrows :: bool

definition setTimer :: "timer \<Rightarrow> dgui \<Rightarrow> nat \<times> dgui" where
  "setTimer t s =
     (nextTimerId s,
      s\<lparr>timers := (timers s)(nextTimerId s \<mapsto> t), nextTimerId := Suc (nextTimerId s)\<rparr>)"

definition clearTimer :: "nat \<Rightarrow> dgui \<Rightarrow> dgui" where
  "clearTimer i s = s\<lparr>timers := (timers s)(i := None)\<rparr>"

definition watchdogTimer :: timer where
  "watchdogTimer = \<lparr>repeating = False, delay = 3000, calls = Watchdog\<rparr>"

text \<open>
  \<^verbatim>\<open>clearInterval(this.refreshIntervalId); this.refreshIntervalId = setInterval(..., ms)\<close>
  with the tick that only loads.
\<close>

definition rescheduleRefresh :: "nat \<Rightarrow> nat \<Rightarrow> dgui \<Rightarrow> dgui" where
  "rescheduleRefresh i ms s =
     (case setTimer \<lparr>repeating = True, delay = ms, calls = RefreshLoadOnly\<rparr> (clearTimer i s) of
        (j, s') \<Rightarrow> s'\<lparr>refreshIntervalId := Some j\<rparr>)"

section \<open>\<^verbatim>\<open>_finishLoading\<close> and the watchdog\<close>

text \<open>
  \<^verbatim>\<open>_finishLoading(loadTimeout, success)\<close> (lines 1566 to 1586). \<^verbatim>\<open>Date.now()\<close> is read
  on success only.
\<close>

definition finishLoading :: "nat \<Rightarrow> bool \<Rightarrow> host \<Rightarrow> dgui \<Rightarrow> dgui" where
  "finishLoading loadTimeout success h s =
     (let s1 = (clearTimer loadTimeout s)\<lparr>isLoadingEntries := False\<rparr> in
      if success then
        let s2 = s1\<lparr>lastSuccessfulLoad := dateNowFinish h, consecutiveErrors := 0\<rparr> in
        (case refreshIntervalId s2 of
           None \<Rightarrow> s2
         | Some i \<Rightarrow> if consecutiveErrors s2 = 0 then rescheduleRefresh i 500 s2 else s2)
      else s1\<lparr>consecutiveErrors := Suc (consecutiveErrors s1)\<rparr>)"

text \<open>
  The closure given to \<^verbatim>\<open>setTimeout(..., 3000)\<close> in \<^verbatim>\<open>loadLastEntries\<close> (lines 1357 to
  1372).
\<close>

definition watchdogCallback :: "dgui \<Rightarrow> dgui" where
  "watchdogCallback s =
     (let s1 = s\<lparr>isLoadingEntries := False, consecutiveErrors := Suc (consecutiveErrors s)\<rparr> in
      if 3 < consecutiveErrors s1 then
        (case refreshIntervalId s1 of
           None \<Rightarrow> s1
         | Some i \<Rightarrow> rescheduleRefresh i 2000 s1)
      else s1)"

section \<open>\<^verbatim>\<open>loadLastEntries\<close>\<close>

datatype outcome =
  SkippedLoading | SkippedTooFrequent | NoList | NoEntries | Rendered | Failed | Escaped

definition noEntriesItem :: string where
  "noEntriesItem = ''<li class=\"dg-result-item dg-no-entries\">No recent entries found</li>''"

definition errorItem :: string where
  "errorItem = ''<li class=\"dg-result-item dg-no-entries\">Error loading entries</li>''"

text \<open>\<^verbatim>\<open>_createEntriesList\<close>: a new empty list is appended to the section, if there is one.\<close>

definition createEntriesList :: "dgui \<Rightarrow> dgui" where
  "createEntriesList s = (if lastEntriesSection s then s\<lparr>lastEntriesList := Some []\<rparr> else s)"

definition hasActorsInFolder :: "string \<Rightarrow> actor list \<Rightarrow> bool" where
  "hasActorsInFolder folder actors = (0 < length (filter (inFolder folder) actors))"

text \<open>
  The \<^verbatim>\<open>try\<close> block (lines 1374 to 1415). \<open>Inr\<close> is a \<^verbatim>\<open>return\<close> with the outcome of
  the cycle, \<open>Inl\<close> an exception, with the state it leaves behind: the lookup of the
  folder throws before the list is emptied, \<^verbatim>\<open>game.actors\<close> and the writing of the rows
  after.
\<close>

definition loadBody :: "host \<Rightarrow> nat \<Rightarrow> dgui \<Rightarrow> dgui + outcome \<times> dgui" where
  "loadBody h loadTimeout s =
     (let s1 = (if lastEntriesList s = None then createEntriesList s else s) in
      if lastEntriesList s1 = None
      then Inr (NoList, (clearTimer loadTimeout s1)\<lparr>isLoadingEntries := False\<rparr>)
      else
        (case foldersFind h of
           Inl _ \<Rightarrow> Inl s1
         | Inr folder \<Rightarrow>
             let s2 = s1\<lparr>lastEntriesList := Some []\<rparr>;
                 empty = Inr (NoEntries,
                   finishLoading loadTimeout True h (s2\<lparr>lastEntriesList := Some [noEntriesItem]\<rparr>))
             in
             (case folder of
                None \<Rightarrow> empty
              | Some f \<Rightarrow>
                  (case gameActors h of
                     Inl _ \<Rightarrow> Inl s2
                   | Inr actors \<Rightarrow>
                       if \<not> hasActorsInFolder f actors then empty
                       else if renderThrows h then Inl s2
                       else Inr (Rendered,
                         finishLoading loadTimeout True h
                           (s2\<lparr>lastEntriesList :=
                                 Some (generateActorsHTML (getRecentActors f actors))\<rparr>))))))"

text \<open>
  \<^verbatim>\<open>loadLastEntries()\<close> (lines 1339 to 1428): the two guards, the watchdog, the \<^verbatim>\<open>try\<close>
  block and the \<^verbatim>\<open>catch\<close> block. Every statement of the function runs in one turn of the
  event loop, so a cycle that was started has returned before any timer fires. The one
  way a call that returns leaves its cycle open is an exception thrown by the \<^verbatim>\<open>catch\<close>
  block itself, before \<^verbatim>\<open>_finishLoading\<close> is reached: it leaves the function
  (\<open>Escaped\<close>) with \<^verbatim>\<open>isLoadingEntries\<close> set and the watchdog pending.
\<close>

definition loadLastEntries :: "host \<Rightarrow> dgui \<Rightarrow> outcome \<times> dgui" where
  "loadLastEntries h s =
     (if isLoadingEntries s then (SkippedLoading, s)
      else if dateNow h - lastSuccessfulLoad s < 300 then (SkippedTooFrequent, s)
      else
        (case setTimer watchdogTimer (s\<lparr>isLoadingEntries := True\<rparr>) of
           (loadTimeout, s1) \<Rightarrow>
             (case loadBody h loadTimeout s1 of
                Inr r \<Rightarrow> r
              | Inl s2 \<Rightarrow>
                  if handlerThrows h then (Escaped, s2)
                  else
                    (Failed,
                     finishLoading loadTimeout False h
                       (case lastEntriesList s2 of
                          None \<Rightarrow> s2
                        | Some _ \<Rightarrow> s2\<lparr>lastEntriesList := Some [errorItem]\<rparr>)))))"

section \<open>\<^verbatim>\<open>forceDisplayLastEntries\<close>\<close>

text \<open>
  \<^verbatim>\<open>forceDisplayLastEntries()\<close> (lines 1080 to 1123). The result says whether
  \<^verbatim>\<open>loadLastEntries\<close> was called, and with what outcome; the \<^verbatim>\<open>try\<close> of the function
  swallows an exception of the call. The style set on the list is not part of the state.
\<close>

definition forceDisplayLastEntries :: "host \<Rightarrow> dgui \<Rightarrow> outcome option \<times> dgui" where
  "forceDisplayLastEntries h s =
     (if \<not> interfaceActive h then (None, s)
      else if \<not> lastEntriesSection s then (None, s)
      else
        let s1 = (if lastEntriesList s = None then s\<lparr>lastEntriesList := Some []\<rparr> else s) in
        if lastEntriesList s1 = Some []
        then (case loadLastEntries h s1 of (r, s2) \<Rightarrow> (Some r, s2))
        else (None, s1))"

section \<open>The refresh timer and the event loop\<close>

text \<open>
  The tick registered by \<^verbatim>\<open>renderInterface\<close> and by the activation of the interface: the
  call of \<^verbatim>\<open>forceDisplayLastEntries\<close> is not reached when \<^verbatim>\<open>loadLastEntries\<close> throws.
\<close>

definition refreshFull :: "host \<Rightarrow> host \<Rightarrow> dgui \<Rightarrow> dgui" where
  "refreshFull h h' s =
     (if interfaceActive h
      then (case loadLastEntries h s of
              (r, s1) \<Rightarrow> if r = Escaped then s1 else snd (forceDisplayLastEntries h' s1))
      else s)"

definition refreshLoadOnly :: "host \<Rightarrow> dgui \<Rightarrow> dgui" where
  "refreshLoadOnly h s = (if interfaceActive h then snd (loadLastEntries h s) else s)"

text \<open>The LOG OUT button and the deactivation of the interface.\<close>

definition stopRefresh :: "dgui \<Rightarrow> dgui" where
  "stopRefresh s =
     (case refreshIntervalId s of
        None \<Rightarrow> s
      | Some i \<Rightarrow> (clearTimer i s)\<lparr>refreshIntervalId := None\<rparr>)"

text \<open>
  The activation of the interface: \<^verbatim>\<open>if (!this.refreshIntervalId) ... setInterval\<close>.
  \<^verbatim>\<open>renderInterface\<close> clears a running timer and registers a new one, which is
  \<open>stopRefresh\<close> followed by \<open>startRefresh\<close>.
\<close>

definition startRefresh :: "dgui \<Rightarrow> dgui" where
  "startRefresh s =
     (case refreshIntervalId s of
        Some _ \<Rightarrow> s
      | None \<Rightarrow>
          (case setTimer \<lparr>repeating = True, delay = 500, calls = RefreshFull\<rparr> s of
             (j, s') \<Rightarrow> s'\<lparr>refreshIntervalId := Some j\<rparr>))"

text \<open>
  A pending timer fires: a timeout leaves the table, an interval stays. A timer that was
  cleared does not fire.
\<close>

definition timerFires :: "nat \<Rightarrow> host \<Rightarrow> host \<Rightarrow> dgui \<Rightarrow> dgui" where
  "timerFires i h h' s =
     (case timers s i of
        None \<Rightarrow> s
      | Some t \<Rightarrow>
          let s0 = (if repeating t then s else clearTimer i s) in
          (case calls t of
             Watchdog \<Rightarrow> watchdogCallback s0
           | RefreshFull \<Rightarrow> refreshFull h h' s0
           | RefreshLoadOnly \<Rightarrow> refreshLoadOnly h s0))"

text \<open>
  The events of the single thread: a direct call of \<^verbatim>\<open>loadLastEntries\<close> (the actor hooks,
  \<^verbatim>\<open>onReady\<close>), a call of \<^verbatim>\<open>forceDisplayLastEntries\<close>, a timer firing, the interface
  being switched off and on.
\<close>

datatype event =
  Load host | ForceDisplay host | TimerFires nat host host | StopRefresh | StartRefresh

fun step :: "event \<Rightarrow> dgui \<Rightarrow> dgui" where
  "step (Load h) s = snd (loadLastEntries h s)"
| "step (ForceDisplay h) s = snd (forceDisplayLastEntries h s)"
| "step (TimerFires i h h') s = timerFires i h h' s"
| "step StopRefresh s = stopRefresh s"
| "step StartRefresh s = startRefresh s"

definition run :: "event list \<Rightarrow> dgui \<Rightarrow> dgui" where
  "run evs s = foldl (\<lambda>st e. step e st) s evs"

text \<open>The static initialisers of the class, before any timer is registered.\<close>

definition initial :: "bool \<Rightarrow> string list option \<Rightarrow> dgui" where
  "initial section list =
     \<lparr>isLoadingEntries = False, lastSuccessfulLoad = 0, consecutiveErrors = 0,
      refreshIntervalId = None, timers = Map.empty, nextTimerId = 1,
      lastEntriesSection = section, lastEntriesList = list\<rparr>"

section \<open>Observations on the state\<close>

text \<open>The interval of the timer \<^verbatim>\<open>refreshIntervalId\<close> names, when it is pending.\<close>

definition cadenceMs :: "dgui \<Rightarrow> nat option" where
  "cadenceMs s =
     (case refreshIntervalId s of None \<Rightarrow> None | Some i \<Rightarrow> map_option delay (timers s i))"

text \<open>A call that got past the two guards ran a load cycle.\<close>

definition executed :: "outcome \<Rightarrow> bool" where
  "executed r = (r \<noteq> SkippedLoading \<and> r \<noteq> SkippedTooFrequent)"

text \<open>
  A cycle arms its watchdog when it starts, and every way it ends removes the watchdog
  from the host's table: the cycle whose watchdog is \<open>w\<close> is in flight while \<open>w\<close> is
  pending.
\<close>

definition cycleInFlight :: "dgui \<Rightarrow> nat \<Rightarrow> bool" where
  "cycleInFlight s w = (timers s w = Some watchdogTimer)"

text \<open>
  What holds of the timers in every state the events lead to: identifiers below the
  counter; a pending timer is a watchdog, or the one refresh interval, at 500 or 2000
  milliseconds, that \<^verbatim>\<open>refreshIntervalId\<close> names; a watchdog is pending exactly while
  \<^verbatim>\<open>isLoadingEntries\<close> is set, and then only one.
\<close>

definition wellFormed :: "dgui \<Rightarrow> bool" where
  "wellFormed s \<longleftrightarrow>
     (\<forall>i t. timers s i = Some t \<longrightarrow>
        i < nextTimerId s \<and>
        (t = watchdogTimer \<or>
         (repeating t \<and> calls t \<noteq> Watchdog \<and> (delay t = 500 \<or> delay t = 2000) \<and>
          refreshIntervalId s = Some i))) \<and>
     (isLoadingEntries s \<longleftrightarrow> (\<exists>i. timers s i = Some watchdogTimer)) \<and>
     (\<forall>i j. timers s i = Some watchdogTimer \<and> timers s j = Some watchdogTimer \<longrightarrow> i = j) \<and>
     (\<forall>i. refreshIntervalId s = Some i \<longrightarrow> (\<exists>t. timers s i = Some t \<and> repeating t))"

definition armed :: "nat \<Rightarrow> dgui \<Rightarrow> bool" where
  "armed w s \<longleftrightarrow> wellFormed s \<and> isLoadingEntries s \<and> timers s w = Some watchdogTimer"

section \<open>Example inputs\<close>

text \<open>
  A host at time \<open>t\<close> with the interface active and no \<^verbatim>\<open>PC Records\<close> folder; the same
  with a folder lookup that throws; the same with a \<^verbatim>\<open>catch\<close> block that throws too.
\<close>

definition hostAt :: "int \<Rightarrow> host" where
  "hostAt t =
     \<lparr>dateNow = t, dateNowFinish = t, interfaceActive = True, foldersFind = Inr None,
      gameActors = Inr [], renderThrows = False, handlerThrows = False\<rparr>"

definition throwingHost :: "int \<Rightarrow> host" where
  "throwingHost t = (hostAt t)\<lparr>foldersFind := Inl Thrown\<rparr>"

definition stuckHost :: "int \<Rightarrow> host" where
  "stuckHost t = (throwingHost t)\<lparr>handlerThrows := True\<rparr>"

text \<open>The panel with its section and an empty list, before anything has run.\<close>

definition emptyPanel :: dgui where
  "emptyPanel = initial True (Some [])"

definition shownPanel :: dgui where
  "shownPanel = initial True (Some [listItem ''a2'' ''DOE - JANE Q''])"

text \<open>The interface is switched on and four cycles in a row fail in the \<^verbatim>\<open>catch\<close> block.\<close>

definition fourFailures :: "event list" where
  "fourFailures =
     [StartRefresh, Load (throwingHost 1000), Load (throwingHost 2000),
      Load (throwingHost 3000), Load (throwingHost 4000)]"

text \<open>A cycle that stays open, and the watchdog (timer 1) firing on it.\<close>

definition stuckThenWatchdog :: "event list" where
  "stuckThenWatchdog = [Load (stuckHost 1000), TimerFires 1 (hostAt 4000) (hostAt 4000)]"

definition stuckPanel :: dgui where
  "stuckPanel = run [Load (stuckHost 1000)] emptyPanel"


text \<open>The interface is switched off while a cycle (watchdog 2) is open.\<close>

definition stoppedInFlight :: dgui where
  "stoppedInFlight = run [StartRefresh, Load (stuckHost 1000), StopRefresh] emptyPanel"

definition recordWithId :: "string \<Rightarrow> actor" where
  "recordWithId i =
     \<lparr>actor_id = i, actor_name = ''Record'', actor_folder = Some ''pc'',
      getFlag = (\<lambda>k. Inr None)\<rparr>"

definition fourRecords :: "actor list" where
  "fourRecords =
     [recordWithId ''actor-9'', recordWithId ''actor-123'', recordWithId ''actor-45'',
      recordWithId ''actor-7'']"

definition agentJohn :: actor where
  "agentJohn =
     \<lparr>actor_id = ''a1'', actor_name = ''Agent J'', actor_folder = Some ''pc'',
      getFlag = (\<lambda>k. if k = ''firstName'' then Inr (Some ''JOHN'') else Inr None)\<rparr>"

definition agentDoe :: actor where
  "agentDoe =
     \<lparr>actor_id = ''a2'', actor_name = ''Agent D'', actor_folder = Some ''pc'',
      getFlag = (\<lambda>k. if k = ''surname'' then Inr (Some ''DOE'')
                     else if k = ''firstName'' then Inr (Some ''JANE'')
                     else if k = ''middleName'' then Inr (Some ''Q'') else Inr None)\<rparr>"

section \<open>A host call that does not return\<close>








section \<open>The timers stay well formed\<close>

text \<open>
  Each operation of the module keeps \<open>wellFormed\<close>; an open cycle (\<open>armed\<close>) is closed
  by \<^verbatim>\<open>_finishLoading\<close>, by the early return of \<^verbatim>\<open>loadLastEntries\<close> or by its watchdog.
\<close>

lemma watchdogTimer_simps [simp]:
  "repeating watchdogTimer = False" "calls watchdogTimer = Watchdog" "delay watchdogTimer = 3000"
  by (simp_all add: watchdogTimer_def)

lemma repeating_not_watchdog [simp]:
  "\<lparr>repeating = True, delay = ms, calls = c\<rparr> \<noteq> watchdogTimer"
  "watchdogTimer \<noteq> \<lparr>repeating = True, delay = ms, calls = c\<rparr>"
  by (simp_all add: watchdogTimer_def)

lemma wellFormedI:
  assumes "\<And>i t. timers s i = Some t \<Longrightarrow> i < nextTimerId s"
    and "\<And>i t. timers s i = Some t \<Longrightarrow> t \<noteq> watchdogTimer \<Longrightarrow>
           repeating t \<and> calls t \<noteq> Watchdog \<and> (delay t = 500 \<or> delay t = 2000) \<and>
           refreshIntervalId s = Some i"
    and "isLoadingEntries s \<longleftrightarrow> (\<exists>i. timers s i = Some watchdogTimer)"
    and "\<And>i j. timers s i = Some watchdogTimer \<Longrightarrow> timers s j = Some watchdogTimer \<Longrightarrow> i = j"
    and "\<And>i. refreshIntervalId s = Some i \<Longrightarrow> \<exists>t. timers s i = Some t \<and> repeating t"
  shows "wellFormed s"
  unfolding wellFormed_def using assms by blast

lemma wf_lt: "wellFormed s \<Longrightarrow> timers s i = Some t \<Longrightarrow> i < nextTimerId s"
  unfolding wellFormed_def by blast

lemma wf_kind:
  "wellFormed s \<Longrightarrow> timers s i = Some t \<Longrightarrow> t \<noteq> watchdogTimer \<Longrightarrow>
     repeating t \<and> calls t \<noteq> Watchdog \<and> (delay t = 500 \<or> delay t = 2000) \<and>
     refreshIntervalId s = Some i"
  unfolding wellFormed_def by blast

lemma wf_loading: "wellFormed s \<Longrightarrow> isLoadingEntries s \<longleftrightarrow> (\<exists>i. timers s i = Some watchdogTimer)"
  unfolding wellFormed_def by blast

lemma wf_unique:
  "wellFormed s \<Longrightarrow> timers s i = Some watchdogTimer \<Longrightarrow> timers s j = Some watchdogTimer \<Longrightarrow> i = j"
  unfolding wellFormed_def by blast

lemma wf_refresh:
  "wellFormed s \<Longrightarrow> refreshIntervalId s = Some i \<Longrightarrow> \<exists>t. timers s i = Some t \<and> repeating t"
  unfolding wellFormed_def by blast

lemma wellFormed_frame [simp]:
  "wellFormed (s\<lparr>lastEntriesList := l\<rparr>) = wellFormed s"
  "wellFormed (s\<lparr>lastSuccessfulLoad := n\<rparr>) = wellFormed s"
  "wellFormed (s\<lparr>consecutiveErrors := c\<rparr>) = wellFormed s"
  by (simp_all add: wellFormed_def)

lemma armed_frame [simp]:
  "armed w (s\<lparr>lastEntriesList := l\<rparr>) = armed w s"
  "armed w (s\<lparr>lastSuccessfulLoad := n\<rparr>) = armed w s"
  "armed w (s\<lparr>consecutiveErrors := c\<rparr>) = armed w s"
  by (simp_all add: armed_def)

lemma wellFormed_initial: "wellFormed (initial sec l)"
  by (simp add: wellFormed_def initial_def)

lemma wellFormed_arm:
  assumes wf: "wellFormed s" and idle: "\<not> isLoadingEntries s"
  shows "wellFormed (snd (setTimer watchdogTimer (s\<lparr>isLoadingEntries := True\<rparr>)))"
proof (rule wellFormedI)
  let ?s = "snd (setTimer watchdogTimer (s\<lparr>isLoadingEntries := True\<rparr>))"
  have none: "timers s i \<noteq> Some watchdogTimer" for i
    using wf_loading [OF wf] idle by blast
  have fresh: "timers s (nextTimerId s) = None"
    using wf_lt [OF wf, of "nextTimerId s"] by (cases "timers s (nextTimerId s)") auto
  show "i < nextTimerId ?s" if "timers ?s i = Some t" for i t
    using that wf_lt [OF wf, of i t] by (auto simp: setTimer_def split: if_splits)
  show "repeating t \<and> calls t \<noteq> Watchdog \<and> (delay t = 500 \<or> delay t = 2000) \<and>
        refreshIntervalId ?s = Some i"
    if "timers ?s i = Some t" "t \<noteq> watchdogTimer" for i t
    using that wf_kind [OF wf, of i t] by (auto simp: setTimer_def split: if_splits)
  show "isLoadingEntries ?s \<longleftrightarrow> (\<exists>i. timers ?s i = Some watchdogTimer)"
    by (auto simp: setTimer_def)
  show "i = j" if "timers ?s i = Some watchdogTimer" "timers ?s j = Some watchdogTimer" for i j
    using that none by (auto simp: setTimer_def split: if_splits)
  show "\<exists>t. timers ?s i = Some t \<and> repeating t" if "refreshIntervalId ?s = Some i" for i
    using that wf_refresh [OF wf, of i] fresh by (auto simp: setTimer_def)
qed

lemma armed_begin:
  assumes "wellFormed s" "\<not> isLoadingEntries s"
  shows "armed (nextTimerId s) (snd (setTimer watchdogTimer (s\<lparr>isLoadingEntries := True\<rparr>)))"
  unfolding armed_def using wellFormed_arm [OF assms] by (simp add: setTimer_def)

lemma wellFormed_complete:
  assumes "armed w s"
  shows "wellFormed ((clearTimer w s)\<lparr>isLoadingEntries := False\<rparr>)"
proof (rule wellFormedI)
  let ?s = "(clearTimer w s)\<lparr>isLoadingEntries := False\<rparr>"
  from assms have wf: "wellFormed s" and w: "timers s w = Some watchdogTimer"
    by (simp_all add: armed_def)
  show "i < nextTimerId ?s" if "timers ?s i = Some t" for i t
    using that wf_lt [OF wf, of i t] by (auto simp: clearTimer_def split: if_splits)
  show "repeating t \<and> calls t \<noteq> Watchdog \<and> (delay t = 500 \<or> delay t = 2000) \<and>
        refreshIntervalId ?s = Some i"
    if "timers ?s i = Some t" "t \<noteq> watchdogTimer" for i t
    using that wf_kind [OF wf, of i t] by (auto simp: clearTimer_def split: if_splits)
  show "isLoadingEntries ?s \<longleftrightarrow> (\<exists>i. timers ?s i = Some watchdogTimer)"
    using wf_unique [OF wf _ w] by (auto simp: clearTimer_def)
  show "i = j" if "timers ?s i = Some watchdogTimer" "timers ?s j = Some watchdogTimer" for i j
    using that wf_unique [OF wf, of i j] by (auto simp: clearTimer_def split: if_splits)
  show "\<exists>t. timers ?s i = Some t \<and> repeating t" if "refreshIntervalId ?s = Some i" for i
    using that wf_refresh [OF wf, of i] w by (auto simp: clearTimer_def)
qed

lemma wellFormed_reschedule:
  assumes wf: "wellFormed s" and r: "refreshIntervalId s = Some i" and ms: "ms = 500 \<or> ms = 2000"
  shows "wellFormed (rescheduleRefresh i ms s)"
proof (rule wellFormedI)
  let ?s = "rescheduleRefresh i ms s"
  have fresh: "timers s (nextTimerId s) = None"
    using wf_lt [OF wf, of "nextTimerId s"] by (cases "timers s (nextTimerId s)") auto
  obtain u where u: "timers s i = Some u" "repeating u"
    using wf_refresh [OF wf r] by blast
  then have iw: "timers s i \<noteq> Some watchdogTimer" by auto
  have ilt: "i < nextTimerId s" using wf_lt [OF wf u(1)] .
  show "k < nextTimerId ?s" if "timers ?s k = Some t" for k t
    using that wf_lt [OF wf, of k t]
    by (auto simp: rescheduleRefresh_def setTimer_def clearTimer_def split: if_splits)
  show "repeating t \<and> calls t \<noteq> Watchdog \<and> (delay t = 500 \<or> delay t = 2000) \<and>
        refreshIntervalId ?s = Some k"
    if "timers ?s k = Some t" "t \<noteq> watchdogTimer" for k t
    using that wf_kind [OF wf, of k t] r ms
    by (auto simp: rescheduleRefresh_def setTimer_def clearTimer_def split: if_splits)
  show "isLoadingEntries ?s \<longleftrightarrow> (\<exists>k. timers ?s k = Some watchdogTimer)"
    using wf_loading [OF wf] iw fresh
    by (auto simp: rescheduleRefresh_def setTimer_def clearTimer_def)
  show "k = j" if "timers ?s k = Some watchdogTimer" "timers ?s j = Some watchdogTimer" for k j
    using that wf_unique [OF wf, of k j]
    by (auto simp: rescheduleRefresh_def setTimer_def clearTimer_def split: if_splits)
  show "\<exists>t. timers ?s k = Some t \<and> repeating t" if "refreshIntervalId ?s = Some k" for k
    using that by (auto simp: rescheduleRefresh_def setTimer_def clearTimer_def)
qed


lemma finishLoading_fields [simp]:
  "isLoadingEntries (finishLoading w ok h s) = False"
  "lastEntriesList (finishLoading w ok h s) = lastEntriesList s"
  "lastEntriesSection (finishLoading w ok h s) = lastEntriesSection s"
  by (simp_all add: finishLoading_def rescheduleRefresh_def setTimer_def clearTimer_def Let_def
        split: option.splits)

lemma wellFormed_finishLoading:
  assumes "armed w s"
  shows "wellFormed (finishLoading w ok h s)"
proof -
  let ?s1 = "(clearTimer w s)\<lparr>isLoadingEntries := False\<rparr>"
  have wf1: "wellFormed ?s1" by (rule wellFormed_complete [OF assms])
  show ?thesis
  proof (cases ok)
    case False
    then show ?thesis using wf1 by (simp add: finishLoading_def)
  next
    case True
    let ?s2 = "?s1\<lparr>lastSuccessfulLoad := dateNowFinish h, consecutiveErrors := 0\<rparr>"
    have wf2: "wellFormed ?s2" using wf1 by simp
    show ?thesis
    proof (cases "refreshIntervalId s")
      case None
      then show ?thesis using True wf2 by (simp add: finishLoading_def clearTimer_def)
    next
      case (Some i)
      then have "refreshIntervalId ?s2 = Some i" by (simp add: clearTimer_def)
      from wellFormed_reschedule [OF wf2 this, of 500]
      show ?thesis using True Some by (simp add: finishLoading_def clearTimer_def)
    qed
  qed
qed

lemma loadBody_armed:
  assumes "armed w s"
  shows "case loadBody h w s of
           Inl s' \<Rightarrow> armed w s'
         | Inr (r, s') \<Rightarrow> wellFormed s' \<and> \<not> isLoadingEntries s' \<and> r \<noteq> Escaped"
proof -
  have a: "armed w (createEntriesList s)"
    using assms by (simp add: createEntriesList_def)
  have c: "armed w s' \<Longrightarrow> wellFormed ((clearTimer w s')\<lparr>isLoadingEntries := False\<rparr>)" for s'
    by (rule wellFormed_complete)
  have f: "armed w s' \<Longrightarrow> wellFormed (finishLoading w True h s')" for s'
    by (rule wellFormed_finishLoading)
  show ?thesis
    using assms a c f
    by (auto simp: loadBody_def Let_def split: sum.splits option.splits)
qed

lemma loadLastEntries_wellFormed:
  assumes wf: "wellFormed s"
  shows "wellFormed (snd (loadLastEntries h s))"
proof (cases "isLoadingEntries s \<or> dateNow h - lastSuccessfulLoad s < 300")
  case True
  then show ?thesis using wf by (auto simp: loadLastEntries_def)
next
  case False
  let ?w = "nextTimerId s"
  obtain s1 where st: "setTimer watchdogTimer (s\<lparr>isLoadingEntries := True\<rparr>) = (?w, s1)"
    by (simp add: setTimer_def)
  have a: "armed ?w s1" using armed_begin [OF wf] False st by simp
  note b = loadBody_armed [OF a, of h]
  show ?thesis
  proof (cases "loadBody h ?w s1")
    case (Inr p)
    then show ?thesis using b False
      by (cases p) (simp add: loadLastEntries_def st)
  next
    case (Inl s2)
    then have a2: "armed ?w s2" using b by simp
    then have a3: "armed ?w (case lastEntriesList s2 of None \<Rightarrow> s2
                            | Some _ \<Rightarrow> s2\<lparr>lastEntriesList := Some [errorItem]\<rparr>)"
      by (simp split: option.splits)
    show ?thesis
      using Inl False a2 wellFormed_finishLoading [OF a3, of False h]
      by (simp add: loadLastEntries_def st armed_def)
  qed
qed

lemma forceDisplayLastEntries_wellFormed:
  assumes wf: "wellFormed s"
  shows "wellFormed (snd (forceDisplayLastEntries h s))"
proof -
  have "wellFormed (snd (loadLastEntries h (s\<lparr>lastEntriesList := Some []\<rparr>)))"
    by (rule loadLastEntries_wellFormed) (simp add: wf)
  moreover have "wellFormed (snd (loadLastEntries h s))"
    by (rule loadLastEntries_wellFormed [OF wf])
  ultimately show ?thesis using wf
    by (auto simp: forceDisplayLastEntries_def Let_def split: prod.splits)
qed

lemma refreshFull_wellFormed:
  assumes wf: "wellFormed s"
  shows "wellFormed (refreshFull h h' s)"
  using wf loadLastEntries_wellFormed [OF wf, of h]
    forceDisplayLastEntries_wellFormed [of "snd (loadLastEntries h s)" h']
  by (auto simp: refreshFull_def split: prod.splits)

lemma refreshLoadOnly_wellFormed:
  "wellFormed s \<Longrightarrow> wellFormed (refreshLoadOnly h s)"
  by (simp add: refreshLoadOnly_def loadLastEntries_wellFormed)

lemma stopRefresh_wellFormed:
  assumes wf: "wellFormed s"
  shows "wellFormed (stopRefresh s)"
proof (cases "refreshIntervalId s")
  case None
  then show ?thesis using wf by (simp add: stopRefresh_def)
next
  case (Some r)
  obtain u where u: "timers s r = Some u" "repeating u"
    using wf_refresh [OF wf Some] by blast
  let ?s = "(clearTimer r s)\<lparr>refreshIntervalId := None\<rparr>"
  have "wellFormed ?s"
  proof (rule wellFormedI)
    show "i < nextTimerId ?s" if "timers ?s i = Some t" for i t
      using that wf_lt [OF wf, of i t] by (auto simp: clearTimer_def split: if_splits)
    show "repeating t \<and> calls t \<noteq> Watchdog \<and> (delay t = 500 \<or> delay t = 2000) \<and>
          refreshIntervalId ?s = Some i"
      if "timers ?s i = Some t" "t \<noteq> watchdogTimer" for i t
      using that wf_kind [OF wf, of i t] Some by (auto simp: clearTimer_def split: if_splits)
    have "timers s i = Some watchdogTimer \<Longrightarrow> i \<noteq> r" for i
      using u by auto
    then show "isLoadingEntries ?s \<longleftrightarrow> (\<exists>i. timers ?s i = Some watchdogTimer)"
      using wf_loading [OF wf] by (simp add: clearTimer_def) blast
    show "i = j" if "timers ?s i = Some watchdogTimer" "timers ?s j = Some watchdogTimer" for i j
      using that wf_unique [OF wf, of i j] by (auto simp: clearTimer_def split: if_splits)
    show "\<exists>t. timers ?s i = Some t \<and> repeating t" if "refreshIntervalId ?s = Some i" for i
      using that by simp
  qed
  then show ?thesis using Some by (simp add: stopRefresh_def)
qed

lemma startRefresh_wellFormed:
  assumes wf: "wellFormed s"
  shows "wellFormed (startRefresh s)"
proof (cases "refreshIntervalId s")
  case (Some r)
  then show ?thesis using wf by (simp add: startRefresh_def)
next
  case None
  let ?s = "(snd (setTimer \<lparr>repeating = True, delay = 500, calls = RefreshFull\<rparr> s))
              \<lparr>refreshIntervalId := Some (nextTimerId s)\<rparr>"
  have fresh: "timers s (nextTimerId s) = None"
    using wf_lt [OF wf, of "nextTimerId s"] by (cases "timers s (nextTimerId s)") auto
  have "wellFormed ?s"
  proof (rule wellFormedI)
    show "i < nextTimerId ?s" if "timers ?s i = Some t" for i t
      using that wf_lt [OF wf, of i t] by (auto simp: setTimer_def split: if_splits)
    show "repeating t \<and> calls t \<noteq> Watchdog \<and> (delay t = 500 \<or> delay t = 2000) \<and>
          refreshIntervalId ?s = Some i"
      if "timers ?s i = Some t" "t \<noteq> watchdogTimer" for i t
      using that wf_kind [OF wf, of i t] None by (auto simp: setTimer_def split: if_splits)
    have "timers s i = Some watchdogTimer \<Longrightarrow> i \<noteq> nextTimerId s" for i
      using fresh by auto
    then show "isLoadingEntries ?s \<longleftrightarrow> (\<exists>i. timers ?s i = Some watchdogTimer)"
      using wf_loading [OF wf] by (simp add: setTimer_def) blast
    show "i = j" if "timers ?s i = Some watchdogTimer" "timers ?s j = Some watchdogTimer" for i j
      using that wf_unique [OF wf, of i j] by (auto simp: setTimer_def split: if_splits)
    show "\<exists>t. timers ?s i = Some t \<and> repeating t" if "refreshIntervalId ?s = Some i" for i
      using that by (auto simp: setTimer_def)
  qed
  then show ?thesis using None by (simp add: startRefresh_def setTimer_def)
qed

lemma wellFormed_watchdog_fires:
  assumes wf: "wellFormed s" and w: "timers s w = Some watchdogTimer"
  shows "wellFormed (watchdogCallback (clearTimer w s))"
proof -
  have "armed w s" using wf w wf_loading [OF wf] by (auto simp: armed_def)
  from wellFormed_complete [OF this]
  have wf1: "wellFormed ((clearTimer w s)\<lparr>isLoadingEntries := False\<rparr>)" .
  let ?s1 = "(clearTimer w s)\<lparr>isLoadingEntries := False,
               consecutiveErrors := Suc (consecutiveErrors (clearTimer w s))\<rparr>"
  have wf2: "wellFormed ?s1" using wf1 by simp
  show ?thesis
  proof (cases "refreshIntervalId s")
    case None
    then show ?thesis using wf2 by (simp add: watchdogCallback_def clearTimer_def Let_def)
  next
    case (Some i)
    then have "refreshIntervalId ?s1 = Some i" by (simp add: clearTimer_def)
    from wellFormed_reschedule [OF wf2 this, of 2000]
    show ?thesis using Some wf2 by (simp add: watchdogCallback_def clearTimer_def Let_def)
  qed
qed

lemma timerFires_wellFormed:
  assumes wf: "wellFormed s"
  shows "wellFormed (timerFires i h h' s)"
proof (cases "timers s i")
  case None
  then show ?thesis using wf by (simp add: timerFires_def)
next
  case (Some t)
  show ?thesis
  proof (cases "t = watchdogTimer")
    case True
    then show ?thesis
      using Some wellFormed_watchdog_fires [OF wf, of i] by (simp add: timerFires_def)
  next
    case False
    from wf_kind [OF wf Some False]
    show ?thesis
      using Some wf
      by (cases "calls t")
         (simp_all add: timerFires_def refreshFull_wellFormed refreshLoadOnly_wellFormed)
  qed
qed

lemma step_wellFormed: "wellFormed s \<Longrightarrow> wellFormed (step e s)"
  by (cases e)
     (simp_all add: loadLastEntries_wellFormed forceDisplayLastEntries_wellFormed
        timerFires_wellFormed stopRefresh_wellFormed startRefresh_wellFormed)

lemma run_wellFormed: "wellFormed s \<Longrightarrow> wellFormed (run evs s)"
  unfolding run_def by (induction evs arbitrary: s) (simp_all add: step_wellFormed)

lemma reachable_wellFormed: "wellFormed (run evs (initial sec l))"
  by (rule run_wellFormed [OF wellFormed_initial])

section \<open>The recent records\<close>

lemmas eval_defs = getRecentActors_def arraySort_def compareActors_def idNumber_def parseInt_def
  toNumber_def stripNonDigits_def isDigit_def decimalValue_def digitValue_def inFolder_def
  Let_def

text \<open>With a comparator that decides as a key does, the host's sort is \<open>sort_key\<close>.\<close>

lemma insertBy_insort_key:
  assumes "\<forall>y \<in> set ys. cmp x y \<le> 0 \<longleftrightarrow> k x \<le> k y"
  shows "insertBy cmp x ys = insort_key k x ys"
  using assms by (induction ys) auto

lemma arraySort_sort_key:
  assumes "\<forall>x \<in> set xs. \<forall>y \<in> set xs. cmp x y \<le> 0 \<longleftrightarrow> k x \<le> k y"
  shows "arraySort cmp xs = sort_key k xs"
  using assms
proof (induction xs)
  case Nil
  then show ?case by (simp add: arraySort_def)
next
  case (Cons x xs)
  then have "arraySort cmp xs = sort_key k xs" by simp
  moreover have "insertBy cmp x (sort_key k xs) = insort_key k x (sort_key k xs)"
    by (rule insertBy_insort_key) (use Cons.prems in simp)
  ultimately show ?case by (simp add: arraySort_def)
qed

lemma decimalValue_zero: "decimalValue ''0'' = 0"
  by (simp add: decimalValue_def digitValue_def)

text \<open>Below \<open>2 ^ 53\<close> the number \<^verbatim>\<open>parseInt\<close> returns is the integer of the digits.\<close>

lemma idNumber_exact:
  assumes "idInteger i < 2 ^ 53"
  shows "idNumber i = idInteger i"
proof (cases "stripNonDigits i = []")
  case True
  then show ?thesis
    by (simp add: idNumber_def idInteger_def parseInt_def toNumber_def decimalValue_zero)
       (simp add: decimalValue_def)
next
  case False
  then show ?thesis using assms
    by (simp add: idNumber_def idInteger_def parseInt_def toNumber_def)
qed

text \<open>
  C6, as stated, fails: "for every collection of records, \<^verbatim>\<open>_getRecentActors\<close> returns the
  records sorted in descending order of the integer obtained by stripping all non-digit
  characters from each record's id". The ids \<^verbatim>\<open>9007199254740992\<close> and
  \<^verbatim>\<open>9007199254740993\<close> (16 digits, \<open>2 ^ 53\<close> and \<open>2 ^ 53 + 1\<close>) are read by
  \<^verbatim>\<open>parseInt\<close> as the same double, the comparator returns 0, and the stable sort leaves
  the smaller integer first.
\<close>

theorem recent_actors_order_counterexample:
  "map actor_id (getRecentActors ''pc''
       [recordWithId ''9007199254740992'', recordWithId ''9007199254740993'']) =
     [''9007199254740992'', ''9007199254740993''] \<and>
   idInteger ''9007199254740992'' < idInteger ''9007199254740993''"
  by (simp add: eval_defs recordWithId_def idInteger_def)

text \<open>
  C6, amended: for every collection of records of the folder whose ids, stripped of their
  non-digit characters, denote integers below \<open>2 ^ 53\<close> (an id with no digit counting as
  0), \<^verbatim>\<open>_getRecentActors\<close> returns the first three entries (all of them when there are
  fewer) of the folder's records rearranged in descending order of that integer, records
  with equal integers keeping their original relative order; in particular the ids
  \<^verbatim>\<open>actor-9\<close>, \<^verbatim>\<open>actor-123\<close>, \<^verbatim>\<open>actor-45\<close> yield the order \<^verbatim>\<open>actor-123\<close>,
  \<^verbatim>\<open>actor-45\<close>, \<^verbatim>\<open>actor-9\<close>.
\<close>

theorem recent_actors_order:
  assumes "\<forall>a \<in> set actors. inFolder f a \<longrightarrow> idInteger (actor_id a) < 2 ^ 53"
  shows "(\<exists>ys. mset ys = mset (filter (inFolder f) actors) \<and>
            sorted_wrt (\<lambda>a b. idInteger (actor_id b) \<le> idInteger (actor_id a)) ys \<and>
            (\<forall>n. filter (\<lambda>a. idInteger (actor_id a) = n) ys =
                 filter (\<lambda>a. idInteger (actor_id a) = n) (filter (inFolder f) actors)) \<and>
            getRecentActors f actors = take 3 ys) \<and>
         map actor_id (getRecentActors ''pc''
           [recordWithId ''actor-9'', recordWithId ''actor-123'', recordWithId ''actor-45'']) =
           [''actor-123'', ''actor-45'', ''actor-9'']"
proof
  let ?xs = "filter (inFolder f) actors"
  let ?k = "\<lambda>a. - int (idInteger (actor_id a))"
  let ?ys = "sort_key ?k ?xs"
  have exact: "idNumber (actor_id a) = idInteger (actor_id a)" if "a \<in> set ?xs" for a
    using that assms by (simp add: idNumber_exact)
  have "arraySort compareActors ?xs = ?ys"
    by (rule arraySort_sort_key) (auto simp: compareActors_def exact)
  then have res: "getRecentActors f actors = take 3 ?ys"
    by (simp add: getRecentActors_def Let_def min_def)
  have "sorted (map ?k ?ys)" by (rule sorted_sort_key)
  then have srt: "sorted_wrt (\<lambda>a b. idInteger (actor_id b) \<le> idInteger (actor_id a)) ?ys"
    by (simp add: sorted_map)
  have stable: "filter (\<lambda>a. idInteger (actor_id a) = n) ?ys =
                filter (\<lambda>a. idInteger (actor_id a) = n) ?xs" for n
    using sort_key_stable [of ?k "- int n" ?xs] by simp
  have "mset ?ys = mset ?xs" by simp
  with srt stable res
  show "\<exists>ys. mset ys = mset ?xs \<and>
            sorted_wrt (\<lambda>a b. idInteger (actor_id b) \<le> idInteger (actor_id a)) ys \<and>
            (\<forall>n. filter (\<lambda>a. idInteger (actor_id a) = n) ys =
                 filter (\<lambda>a. idInteger (actor_id a) = n) ?xs) \<and>
            getRecentActors f actors = take 3 ys"
    by blast
next
  show "map actor_id (getRecentActors ''pc''
           [recordWithId ''actor-9'', recordWithId ''actor-123'', recordWithId ''actor-45'']) =
           [''actor-123'', ''actor-45'', ''actor-9'']"
    by (simp add: eval_defs recordWithId_def)
qed

text \<open>
  The amended C6 on four records, \<^verbatim>\<open>actor-9\<close>, \<^verbatim>\<open>actor-123\<close>, \<^verbatim>\<open>actor-45\<close> and
  \<^verbatim>\<open>actor-7\<close>: three are returned, largest number first.
\<close>

theorem recent_actors_order_witness:
  "(\<exists>ys. mset ys = mset (filter (inFolder ''pc'') fourRecords) \<and>
         sorted_wrt (\<lambda>a b. idInteger (actor_id b) \<le> idInteger (actor_id a)) ys \<and>
         getRecentActors ''pc'' fourRecords = take 3 ys) \<and>
   map actor_id (getRecentActors ''pc'' fourRecords) = [''actor-123'', ''actor-45'', ''actor-9'']"
proof -
  have "\<forall>a \<in> set fourRecords. inFolder ''pc'' a \<longrightarrow> idInteger (actor_id a) < 2 ^ 53"
    by (simp add: fourRecords_def eval_defs recordWithId_def idInteger_def)
  from recent_actors_order [OF this]
  have "\<exists>ys. mset ys = mset (filter (inFolder ''pc'') fourRecords) \<and>
         sorted_wrt (\<lambda>a b. idInteger (actor_id b) \<le> idInteger (actor_id a)) ys \<and>
         getRecentActors ''pc'' fourRecords = take 3 ys"
    by blast
  moreover have "map actor_id (getRecentActors ''pc'' fourRecords) =
                   [''actor-123'', ''actor-45'', ''actor-9'']"
    by (simp add: fourRecords_def eval_defs recordWithId_def)
  ultimately show ?thesis by blast
qed

section \<open>The label of a row\<close>

text \<open>
  C7, as stated, fails: "the displayed label falls back to the record's generic actor
  name whenever the reference/surname field is not set". A record with a first name and
  no surname is shown as \<^verbatim>\<open>UNKNOWN - JOHN \<close>, not under its actor name: the code falls
  back only when the first name is empty as well.
\<close>

theorem entry_label_counterexample:
  "getFlag agentJohn ''surname'' = Inr None \<and> entryLabel agentJohn = ''UNKNOWN - JOHN '' \<and>
   entryLabel agentJohn \<noteq> actor_name agentJohn"
  by (simp add: agentJohn_def entryLabel_def readFlags_def orElse_def)

text \<open>
  C7, amended: for every record passed to rendering whose three flags can be read, the
  row of the record shows \<^verbatim>\<open>REFERENCE - FIRSTNAME MIDDLENAME\<close> whenever the surname flag
  is set to a text other than \<^verbatim>\<open>UNKNOWN\<close>, or the firstName flag is set, the reference
  being the surname, and \<^verbatim>\<open>UNKNOWN\<close> when no surname is set; it shows the record's actor
  name when the firstName flag is not set and the surname flag is not set or is
  \<^verbatim>\<open>UNKNOWN\<close>. A flag that is the empty string counts as not set, and a first or middle
  name that is not set is shown as the empty string.
\<close>

theorem entry_label_cases:
  assumes "getFlag a ''firstName'' = Inr fn" "getFlag a ''surname'' = Inr sn"
    "getFlag a ''middleName'' = Inr mn" "a \<in> set actors"
  shows "(\<forall>r. sn = Some r \<and> r \<noteq> [] \<and> r \<noteq> ''UNKNOWN'' \<longrightarrow>
            entryLabel a = r @ '' - '' @ orElse fn [] @ '' '' @ orElse mn []) \<and>
         ((sn = None \<or> sn = Some [] \<or> sn = Some ''UNKNOWN'') \<and> orElse fn [] \<noteq> [] \<longrightarrow>
            entryLabel a = ''UNKNOWN - '' @ orElse fn [] @ '' '' @ orElse mn []) \<and>
         ((sn = None \<or> sn = Some [] \<or> sn = Some ''UNKNOWN'') \<and> orElse fn [] = [] \<longrightarrow>
            entryLabel a = actor_name a) \<and>
         listItem (actor_id a) (entryLabel a) \<in> set (generateActorsHTML actors)"
proof -
  have flags: "readFlags a = (orElse fn [], orElse sn ''UNKNOWN'', orElse mn [])"
    using assms(1-3) by (simp add: readFlags_def)
  have "listItem (actor_id a) (entryLabel a) \<in> set (generateActorsHTML actors)"
    using assms(4) by (simp add: generateActorsHTML_def)
  moreover have "entryLabel a = r @ '' - '' @ orElse fn [] @ '' '' @ orElse mn []"
    if "sn = Some r" "r \<noteq> []" "r \<noteq> ''UNKNOWN''" for r
    using that by (simp add: entryLabel_def flags orElse_def)
  moreover have "entryLabel a = ''UNKNOWN - '' @ orElse fn [] @ '' '' @ orElse mn []"
    if "sn = None \<or> sn = Some [] \<or> sn = Some ''UNKNOWN''" "orElse fn [] \<noteq> []"
    using that by (auto simp: entryLabel_def flags orElse_def)
  moreover have "entryLabel a = actor_name a"
    if "sn = None \<or> sn = Some [] \<or> sn = Some ''UNKNOWN''" "orElse fn [] = []"
    using that by (auto simp: entryLabel_def flags orElse_def)
  ultimately show ?thesis by blast
qed

text \<open>
  The amended C7 on a record with the three flags set, and on one with a first name
  only.
\<close>

theorem entry_label_cases_witness:
  "entryLabel agentDoe = ''DOE - JANE Q'' \<and>
   listItem (actor_id agentDoe) (entryLabel agentDoe)
     \<in> set (generateActorsHTML [agentJohn, agentDoe]) \<and>
   entryLabel agentJohn = ''UNKNOWN - JOHN ''"
proof -
  have 1: "getFlag agentDoe ''firstName'' = Inr (Some ''JANE'')"
    and 2: "getFlag agentDoe ''surname'' = Inr (Some ''DOE'')"
    and 3: "getFlag agentDoe ''middleName'' = Inr (Some ''Q'')"
    and 4: "agentDoe \<in> set [agentJohn, agentDoe]"
    by (simp_all add: agentDoe_def)
  note t = entry_label_cases [OF 1 2 3 4]
  have a: "entryLabel agentDoe = ''DOE - JANE Q''"
    using t by (simp add: orElse_def)
  have b: "listItem (actor_id agentDoe) (entryLabel agentDoe)
             \<in> set (generateActorsHTML [agentJohn, agentDoe])"
    using t by blast
  have 5: "getFlag agentJohn ''firstName'' = Inr (Some ''JOHN'')"
    and 6: "getFlag agentJohn ''surname'' = Inr None"
    and 7: "getFlag agentJohn ''middleName'' = Inr None"
    and 8: "agentJohn \<in> set [agentJohn, agentDoe]"
    by (simp_all add: agentJohn_def)
  have c: "entryLabel agentJohn = ''UNKNOWN - JOHN ''"
    using entry_label_cases [OF 5 6 7 8] by (simp add: orElse_def)
  show ?thesis using a b c by blast
qed

section \<open>What a call of \<^verbatim>\<open>loadLastEntries\<close> leaves behind\<close>

lemmas load_defs = loadLastEntries_def loadBody_def finishLoading_def rescheduleRefresh_def
  setTimer_def clearTimer_def createEntriesList_def Let_def

lemmas run_defs = run_def load_defs startRefresh_def stopRefresh_def timerFires_def
  watchdogCallback_def refreshFull_def refreshLoadOnly_def forceDisplayLastEntries_def
  initial_def

lemma loadLastEntries_busy: "isLoadingEntries s \<Longrightarrow> loadLastEntries h s = (SkippedLoading, s)"
  by (simp add: loadLastEntries_def)

lemma loadLastEntries_debounced:
  "\<not> isLoadingEntries s \<Longrightarrow> dateNow h - lastSuccessfulLoad s < 300 \<Longrightarrow>
   loadLastEntries h s = (SkippedTooFrequent, s)"
  by (simp add: loadLastEntries_def)

lemma loadLastEntries_success:
  assumes "loadLastEntries h s = (r, s')" and "r = NoEntries \<or> r = Rendered"
  shows "\<not> isLoadingEntries s' \<and> lastSuccessfulLoad s' = dateNowFinish h \<and>
         consecutiveErrors s' = 0 \<and> timers s' (nextTimerId s) = None"
  using assms
  by (auto simp: load_defs split: if_splits sum.splits option.splits)

lemma loadLastEntries_completed:
  assumes "loadLastEntries h s = (r, s')" and "executed r" and "r \<noteq> Escaped"
  shows "\<not> isLoadingEntries s' \<and> timers s' (nextTimerId s) = None"
  using assms
  by (auto simp: load_defs executed_def split: if_splits sum.splits option.splits)

lemma loadLastEntries_escaped:
  assumes "loadLastEntries h s = (Escaped, s')"
  shows "isLoadingEntries s' \<and> timers s' (nextTimerId s) = Some watchdogTimer \<and>
         consecutiveErrors s' = consecutiveErrors s \<and> \<not> isLoadingEntries s"
  using assms
  by (auto simp: load_defs split: if_splits sum.splits option.splits)

section \<open>Failing cycles\<close>

text \<open>
  C1 at a failing input: "on any failing load cycle the controller increments
  \<^verbatim>\<open>consecutiveErrors\<close> and renders an error placeholder, and whenever
  \<^verbatim>\<open>consecutiveErrors\<close> exceeds 3 with the recurring timer running, the recurring timer
  is rescheduled at the degraded cadence of 2000ms". With the refresh timer running, four
  cycles in a row fail because the lookup of the folder throws: the \<^verbatim>\<open>catch\<close> block
  shows the error row and \<^verbatim>\<open>_finishLoading\<close> counts to 4, but the timer stays at 500
  milliseconds; only the watchdog's closure reschedules. And when a watchdog ends a
  cycle, the count goes up but no error row is written: the list is as the cycle left
  it.
\<close>

theorem failed_cycles_keep_cadence:
  "consecutiveErrors (run fourFailures emptyPanel) = 4 \<and>
   lastEntriesList (run fourFailures emptyPanel) = Some [errorItem] \<and>
   cadenceMs (run fourFailures emptyPanel) = Some 500 \<and>
   consecutiveErrors (run stuckThenWatchdog emptyPanel) = 1 \<and>
   lastEntriesList (run stuckThenWatchdog emptyPanel) = Some []"
  by (simp add: fourFailures_def stuckThenWatchdog_def run_defs cadenceMs_def hostAt_def
      throwingHost_def stuckHost_def emptyPanel_def)

section \<open>The guard on the last successful load\<close>

text \<open>
  C2, as stated, fails: "for every pair of calls to \<^verbatim>\<open>loadLastEntries\<close> issued less
  than 300ms apart, exactly one load cycle executes". The guard compares with the time of
  the last successful load, so after a cycle that failed at time 1000 the call at time
  1100 runs a cycle too.
\<close>

theorem debounce_counterexample:
  "dateNow (hostAt 1100) - dateNow (throwingHost 1000) < 300 \<and>
   executed (fst (loadLastEntries (throwingHost 1000) emptyPanel)) \<and>
   executed (fst (loadLastEntries (hostAt 1100)
                    (snd (loadLastEntries (throwingHost 1000) emptyPanel))))"
  by (simp add: load_defs executed_def hostAt_def throwingHost_def emptyPanel_def initial_def)

text \<open>
  C2, amended: for every pair of calls to \<^verbatim>\<open>loadLastEntries\<close> issued less than 300ms
  apart of which the first runs a load cycle that succeeds (the clock not going back
  during it), exactly one load cycle executes; the later call returns immediately and
  silently without performing a load, leaving the state as it was.
\<close>

theorem debounce_after_success:
  assumes "fst (loadLastEntries h1 s) = NoEntries \<or> fst (loadLastEntries h1 s) = Rendered"
    and "dateNow h1 \<le> dateNowFinish h1"
    and "dateNow h2 - dateNow h1 < 300"
  shows "executed (fst (loadLastEntries h1 s)) \<and>
         loadLastEntries h2 (snd (loadLastEntries h1 s)) =
           (SkippedTooFrequent, snd (loadLastEntries h1 s))"
proof -
  obtain r s' where l: "loadLastEntries h1 s = (r, s')" by (cases "loadLastEntries h1 s")
  with assms(1) have r: "r = NoEntries \<or> r = Rendered" by simp
  from loadLastEntries_success [OF l r]
  have "\<not> isLoadingEntries s'" "lastSuccessfulLoad s' = dateNowFinish h1" by simp_all
  moreover have "dateNow h2 - dateNowFinish h1 < 300" using assms(2,3) by simp
  ultimately have "loadLastEntries h2 s' = (SkippedTooFrequent, s')"
    by (simp add: loadLastEntries_debounced)
  with l r show ?thesis by (auto simp: executed_def)
qed

text \<open>The amended C2 on the empty panel: a successful cycle at 1000, a call at 1100.\<close>

theorem debounce_after_success_witness:
  "executed (fst (loadLastEntries (hostAt 1000) emptyPanel)) \<and>
   loadLastEntries (hostAt 1100) (snd (loadLastEntries (hostAt 1000) emptyPanel)) =
     (SkippedTooFrequent, snd (loadLastEntries (hostAt 1000) emptyPanel))"
proof -
  have a: "fst (loadLastEntries (hostAt 1000) emptyPanel) = NoEntries \<or>
           fst (loadLastEntries (hostAt 1000) emptyPanel) = Rendered"
    by (simp add: run_defs hostAt_def emptyPanel_def)
  have b: "dateNow (hostAt 1000) \<le> dateNowFinish (hostAt 1000)"
    and c: "dateNow (hostAt 1100) - dateNow (hostAt 1000) < 300"
    by (simp_all add: hostAt_def)
  from debounce_after_success [OF a b c] show ?thesis .
qed

section \<open>Successful cycles\<close>



section \<open>The watchdog\<close>

text \<open>
  While a cycle is open, no event but its watchdog changes \<^verbatim>\<open>isLoadingEntries\<close>,
  \<^verbatim>\<open>consecutiveErrors\<close> or the watchdog: every call of \<^verbatim>\<open>loadLastEntries\<close> is skipped.
\<close>

lemma armed_forceDisplay:
  assumes "armed w s"
  shows "armed w (snd (forceDisplayLastEntries h s)) \<and>
         consecutiveErrors (snd (forceDisplayLastEntries h s)) = consecutiveErrors s"
  using assms
  by (auto simp: forceDisplayLastEntries_def Let_def loadLastEntries_busy armed_def)

lemma armed_refresh:
  assumes "armed w s"
  shows "armed w (refreshFull h h' s) \<and> consecutiveErrors (refreshFull h h' s) = consecutiveErrors s"
    and "armed w (refreshLoadOnly h s) \<and> consecutiveErrors (refreshLoadOnly h s) = consecutiveErrors s"
  using assms armed_forceDisplay [OF assms, of h']
  by (auto simp: refreshFull_def refreshLoadOnly_def loadLastEntries_busy armed_def)

lemma armed_stopRefresh:
  assumes "armed w s"
  shows "armed w (stopRefresh s) \<and> consecutiveErrors (stopRefresh s) = consecutiveErrors s"
proof (cases "refreshIntervalId s")
  case None
  then show ?thesis using assms by (simp add: stopRefresh_def)
next
  case (Some r)
  from assms have wf: "wellFormed s" and w: "timers s w = Some watchdogTimer"
    and l: "isLoadingEntries s" by (simp_all add: armed_def)
  obtain u where "timers s r = Some u" "repeating u" using wf_refresh [OF wf Some] by blast
  with w have "r \<noteq> w" by auto
  then show ?thesis
    using stopRefresh_wellFormed [OF wf] Some w l
    by (simp add: armed_def) (simp add: stopRefresh_def clearTimer_def)
qed

lemma armed_startRefresh:
  assumes "armed w s"
  shows "armed w (startRefresh s) \<and> consecutiveErrors (startRefresh s) = consecutiveErrors s"
proof -
  from assms have wf: "wellFormed s" and w: "timers s w = Some watchdogTimer"
    and l: "isLoadingEntries s" by (simp_all add: armed_def)
  have "w \<noteq> nextTimerId s" using wf_lt [OF wf w] by simp
  then show ?thesis
    using startRefresh_wellFormed [OF wf] w l
    by (simp add: armed_def) (simp add: startRefresh_def setTimer_def split: option.splits)
qed

lemma armed_timerFires:
  assumes a: "armed w s" and i: "i \<noteq> w"
  shows "armed w (timerFires i h h' s) \<and>
         consecutiveErrors (timerFires i h h' s) = consecutiveErrors s"
proof (cases "timers s i")
  case None
  then show ?thesis using a by (simp add: timerFires_def)
next
  case (Some t)
  from a have wf: "wellFormed s" and w: "timers s w = Some watchdogTimer"
    by (simp_all add: armed_def)
  have "t \<noteq> watchdogTimer" using wf_unique [OF wf _ w, of i] Some i by auto
  from wf_kind [OF wf Some this] show ?thesis
    using Some armed_refresh [OF a]
    by (cases "calls t") (simp_all add: timerFires_def)
qed

lemma armed_step:
  assumes "armed w s" and "\<forall>h h'. e \<noteq> TimerFires w h h'"
  shows "armed w (step e s) \<and> consecutiveErrors (step e s) = consecutiveErrors s"
proof (cases e)
  case (Load h)
  then show ?thesis using assms(1) by (simp add: loadLastEntries_busy armed_def)
next
  case (ForceDisplay h)
  then show ?thesis using armed_forceDisplay [OF assms(1)] by simp
next
  case (TimerFires i h h')
  with assms(2) have "i \<noteq> w" by auto
  then show ?thesis using armed_timerFires [OF assms(1)] TimerFires by simp
next
  case StopRefresh
  then show ?thesis using armed_stopRefresh [OF assms(1)] by simp
next
  case StartRefresh
  then show ?thesis using armed_startRefresh [OF assms(1)] by simp
qed

lemma armed_run:
  assumes "armed w s" and "\<forall>h h'. TimerFires w h h' \<notin> set evs"
  shows "armed w (run evs s) \<and> consecutiveErrors (run evs s) = consecutiveErrors s"
  using assms
proof (induction evs arbitrary: s)
  case Nil
  then show ?case by (simp add: run_def)
next
  case (Cons e evs)
  have e: "\<forall>h h'. e \<noteq> TimerFires w h h'" using Cons.prems(2) by auto
  note st = armed_step [OF Cons.prems(1) e]
  have "\<forall>h h'. TimerFires w h h' \<notin> set evs" using Cons.prems(2) by auto
  from Cons.IH [OF conjunct1 [OF st] this] st
  show ?case by (simp add: run_def)
qed

lemma watchdog_fires_fields:
  assumes "timers s w = Some watchdogTimer"
  shows "\<not> isLoadingEntries (timerFires w h h' s) \<and>
         consecutiveErrors (timerFires w h h' s) = Suc (consecutiveErrors s) \<and>
         (w < nextTimerId s \<longrightarrow> timers (timerFires w h h' s) w = None)"
  using assms
  by (auto simp: timerFires_def watchdogCallback_def rescheduleRefresh_def setTimer_def
      clearTimer_def Let_def split: option.splits)

section \<open>One cycle at a time\<close>

text \<open>
  C3: for all sequences of trigger calls (timer ticks, direct calls, hooks), no two load
  cycles are ever in flight together; a call of \<^verbatim>\<open>loadLastEntries\<close> made while
  \<^verbatim>\<open>isLoadingEntries\<close> is true returns at once and changes nothing; and
  \<^verbatim>\<open>isLoadingEntries\<close> is true only between the start of a load cycle and its
  completion: a call that ran a cycle and returned (success, failure, no list) leaves the
  flag false and the cycle's watchdog cancelled; a cycle the call left open has the flag
  true; in every state the events lead to, the flag is true exactly when a cycle is in
  flight, such a cycle stays in flight with the flag true until its watchdog fires, and
  the watchdog firing ends the cycle and sets the flag to false.
\<close>

theorem single_flight:
  assumes "st = run evs (initial sec l)"
  shows
  "(isLoadingEntries s \<longrightarrow> loadLastEntries h s = (SkippedLoading, s)) \<and>
   (loadLastEntries h s = (r, s') \<and> executed r \<and> r \<noteq> Escaped \<longrightarrow>
      \<not> isLoadingEntries s' \<and> \<not> cycleInFlight s' (nextTimerId s)) \<and>
   (loadLastEntries h s = (Escaped, s') \<longrightarrow>
      isLoadingEntries s' \<and> cycleInFlight s' (nextTimerId s)) \<and>
   (\<forall>v w. cycleInFlight st v \<and> cycleInFlight st w \<longrightarrow> v = w) \<and>
   (isLoadingEntries st \<longleftrightarrow> (\<exists>w. cycleInFlight st w)) \<and>
   (\<forall>w. cycleInFlight st w \<longrightarrow>
      (\<forall>evs'. (\<forall>g g'. TimerFires w g g' \<notin> set evs') \<longrightarrow>
         isLoadingEntries (run evs' st) \<and> cycleInFlight (run evs' st) w) \<and>
      \<not> isLoadingEntries (timerFires w g1 g2 st) \<and>
      \<not> cycleInFlight (timerFires w g1 g2 st) w)"
proof -
  have wf: "wellFormed st" using assms reachable_wellFormed by simp
  have 1: "isLoadingEntries s \<longrightarrow> loadLastEntries h s = (SkippedLoading, s)"
    by (simp add: loadLastEntries_busy)
  have 2: "loadLastEntries h s = (r, s') \<and> executed r \<and> r \<noteq> Escaped \<longrightarrow>
      \<not> isLoadingEntries s' \<and> \<not> cycleInFlight s' (nextTimerId s)"
    using loadLastEntries_completed [of h s r s'] by (auto simp: cycleInFlight_def)
  have 3: "loadLastEntries h s = (Escaped, s') \<longrightarrow>
      isLoadingEntries s' \<and> cycleInFlight s' (nextTimerId s)"
    using loadLastEntries_escaped [of h s s'] by (auto simp: cycleInFlight_def)
  have 4: "\<forall>v w. cycleInFlight st v \<and> cycleInFlight st w \<longrightarrow> v = w"
    using wf_unique [OF wf] by (auto simp: cycleInFlight_def)
  have 5: "isLoadingEntries st \<longleftrightarrow> (\<exists>w. cycleInFlight st w)"
    using wf_loading [OF wf] by (simp add: cycleInFlight_def)
  have 6: "(\<forall>evs'. (\<forall>g g'. TimerFires w g g' \<notin> set evs') \<longrightarrow>
         isLoadingEntries (run evs' st) \<and> cycleInFlight (run evs' st) w) \<and>
      \<not> isLoadingEntries (timerFires w g1 g2 st) \<and>
      \<not> cycleInFlight (timerFires w g1 g2 st) w" if c: "cycleInFlight st w" for w
  proof -
    from c have w: "timers st w = Some watchdogTimer" by (simp add: cycleInFlight_def)
    then have a: "armed w st" using wf wf_loading [OF wf] by (auto simp: armed_def)
    have "isLoadingEntries (run evs' st) \<and> cycleInFlight (run evs' st) w"
      if "\<forall>g g'. TimerFires w g g' \<notin> set evs'" for evs'
      using armed_run [OF a that] by (simp add: armed_def cycleInFlight_def)
    moreover have "\<not> isLoadingEntries (timerFires w g1 g2 st)"
      using watchdog_fires_fields [OF w] by simp
    moreover have "\<not> cycleInFlight (timerFires w g1 g2 st) w"
      using watchdog_fires_fields [OF w, of g1 g2] wf_lt [OF wf w]
      by (simp add: cycleInFlight_def)
    ultimately show ?thesis by blast
  qed
  from 1 2 3 4 5 6 show ?thesis by blast
qed

text \<open>
  C3 on the panel with a cycle left open (watchdog 1): a call at 5000 is skipped, the
  flag stays true through later events and goes back to false when the watchdog fires;
  and on the empty panel a cycle that succeeds and one that fails leave the flag false.
\<close>

theorem single_flight_witness:
  "isLoadingEntries stuckPanel \<and> cycleInFlight stuckPanel 1 \<and>
   loadLastEntries (hostAt 5000) stuckPanel = (SkippedLoading, stuckPanel) \<and>
   isLoadingEntries (run [Load (hostAt 2000), StartRefresh] stuckPanel) \<and>
   \<not> isLoadingEntries (timerFires 1 (hostAt 4000) (hostAt 4000) stuckPanel) \<and>
   \<not> cycleInFlight (timerFires 1 (hostAt 4000) (hostAt 4000) stuckPanel) 1 \<and>
   fst (loadLastEntries (hostAt 1000) emptyPanel) = NoEntries \<and>
   \<not> isLoadingEntries (snd (loadLastEntries (hostAt 1000) emptyPanel)) \<and>
   fst (loadLastEntries (throwingHost 1000) emptyPanel) = Failed \<and>
   \<not> isLoadingEntries (snd (loadLastEntries (throwingHost 1000) emptyPanel))"
proof -
  have st: "stuckPanel = run [Load (stuckHost 1000)] (initial True (Some []))"
    by (simp add: stuckPanel_def emptyPanel_def)
  have a: "isLoadingEntries stuckPanel" and b: "cycleInFlight stuckPanel 1"
    by (simp_all add: stuckPanel_def run_defs cycleInFlight_def hostAt_def throwingHost_def
        stuckHost_def emptyPanel_def)
  have q: "\<forall>g g'. TimerFires 1 g g' \<notin> set [Load (hostAt 2000), StartRefresh]" by simp
  note t = single_flight [OF st, of stuckPanel "hostAt 5000" _ _ "hostAt 4000" "hostAt 4000"]
  from t a have c: "loadLastEntries (hostAt 5000) stuckPanel = (SkippedLoading, stuckPanel)"
    by blast
  from t b q have d: "isLoadingEntries (run [Load (hostAt 2000), StartRefresh] stuckPanel)"
    by blast
  from t b have e: "\<not> isLoadingEntries (timerFires 1 (hostAt 4000) (hostAt 4000) stuckPanel)"
    and f: "\<not> cycleInFlight (timerFires 1 (hostAt 4000) (hostAt 4000) stuckPanel) 1"
    by blast+
  have r1: "fst (loadLastEntries (hostAt 1000) emptyPanel) = NoEntries"
    and r2: "fst (loadLastEntries (throwingHost 1000) emptyPanel) = Failed"
    by (simp_all add: run_defs hostAt_def throwingHost_def emptyPanel_def)
  have l1: "loadLastEntries (hostAt 1000) emptyPanel =
              (NoEntries, snd (loadLastEntries (hostAt 1000) emptyPanel))"
    using r1 by (cases "loadLastEntries (hostAt 1000) emptyPanel") simp
  have l2: "loadLastEntries (throwingHost 1000) emptyPanel =
              (Failed, snd (loadLastEntries (throwingHost 1000) emptyPanel))"
    using r2 by (cases "loadLastEntries (throwingHost 1000) emptyPanel") simp
  have x: "executed NoEntries \<and> NoEntries \<noteq> Escaped" "executed Failed \<and> Failed \<noteq> Escaped"
    by (simp_all add: executed_def)
  from single_flight [OF st, of emptyPanel "hostAt 1000" NoEntries
      "snd (loadLastEntries (hostAt 1000) emptyPanel)"] l1 x(1)
  have g: "\<not> isLoadingEntries (snd (loadLastEntries (hostAt 1000) emptyPanel))" by blast
  from single_flight [OF st, of emptyPanel "throwingHost 1000" Failed
      "snd (loadLastEntries (throwingHost 1000) emptyPanel)"] l2 x(2)
  have i: "\<not> isLoadingEntries (snd (loadLastEntries (throwingHost 1000) emptyPanel))" by blast
  from a b c d e f r1 g r2 i show ?thesis by blast
qed

section \<open>A load that does not return\<close>



section \<open>A stopped timer stays stopped\<close>

lemma loadLastEntries_stopped:
  "refreshIntervalId s = None \<Longrightarrow> refreshIntervalId (snd (loadLastEntries h s)) = None"
  by (auto simp: load_defs split: if_splits sum.splits option.splits)

lemma forceDisplay_stopped:
  "refreshIntervalId s = None \<Longrightarrow> refreshIntervalId (snd (forceDisplayLastEntries h s)) = None"
  using loadLastEntries_stopped [of s h] loadLastEntries_stopped [of "s\<lparr>lastEntriesList := Some []\<rparr>" h]
  by (auto simp: forceDisplayLastEntries_def Let_def split: prod.splits)

lemma finishLoading_stopped:
  "refreshIntervalId s = None \<Longrightarrow>
   refreshIntervalId (finishLoading w ok h s) = None \<and>
   timers (finishLoading w ok h s) = (timers s)(w := None)"
  by (simp add: finishLoading_def clearTimer_def Let_def)

lemma watchdogCallback_stopped:
  "refreshIntervalId s = None \<Longrightarrow>
   refreshIntervalId (watchdogCallback s) = None \<and> timers (watchdogCallback s) = timers s"
  by (simp add: watchdogCallback_def Let_def)

lemma timerFires_stopped:
  "refreshIntervalId s = None \<Longrightarrow> refreshIntervalId (timerFires i h h' s) = None"
  using loadLastEntries_stopped [of s h] forceDisplay_stopped [of "snd (loadLastEntries h s)" h']
    loadLastEntries_stopped [of "clearTimer i s" h]
    forceDisplay_stopped [of "snd (loadLastEntries h (clearTimer i s))" h']
    watchdogCallback_stopped [of s] watchdogCallback_stopped [of "clearTimer i s"]
  by (auto simp: timerFires_def refreshFull_def refreshLoadOnly_def clearTimer_def Let_def
      split: option.splits callback.splits prod.splits)

lemma step_stopped:
  "refreshIntervalId s = None \<Longrightarrow> e \<noteq> StartRefresh \<Longrightarrow> refreshIntervalId (step e s) = None"
  by (cases e)
     (simp_all add: loadLastEntries_stopped forceDisplay_stopped timerFires_stopped
        stopRefresh_def)

text \<open>
  C8: if the recurring refresh timer has been stopped (\<^verbatim>\<open>refreshIntervalId\<close> is null),
  also while a load cycle is in flight, then neither \<^verbatim>\<open>_finishLoading\<close> nor the
  watchdog's closure registers a timer, and no event other than the activation of the
  interface, in particular no completion of a load cycle by success, failure or
  watchdog, sets \<^verbatim>\<open>refreshIntervalId\<close> or leaves a recurring timer pending.
\<close>

theorem stopped_timer_stays_stopped:
  assumes "s = run pre (initial sec l)" and "refreshIntervalId s = None"
  shows "refreshIntervalId (finishLoading w ok h s) = None \<and>
         timers (finishLoading w ok h s) = (timers s)(w := None) \<and>
         refreshIntervalId (watchdogCallback s) = None \<and>
         timers (watchdogCallback s) = timers s \<and>
         (e \<noteq> StartRefresh \<longrightarrow>
            refreshIntervalId (step e s) = None \<and>
            (\<forall>i t. timers (step e s) i = Some t \<longrightarrow> \<not> repeating t))"
proof -
  have wf: "wellFormed (step e s)"
    using assms(1) reachable_wellFormed step_wellFormed by simp
  have "\<not> repeating t" if "refreshIntervalId (step e s) = None" "timers (step e s) i = Some t"
    for i t
    using wf_kind [OF wf that(2)] that(1) by (cases "t = watchdogTimer") auto
  with step_stopped [OF assms(2), of e] finishLoading_stopped [OF assms(2)]
    watchdogCallback_stopped [OF assms(2)]
  show ?thesis by blast
qed

text \<open>
  C8 on the panel switched off while a cycle is open: the watchdog (timer 2) ends the
  cycle, a later call succeeds, and \<^verbatim>\<open>refreshIntervalId\<close> stays null.
\<close>

theorem stopped_timer_stays_stopped_witness:
  "refreshIntervalId stoppedInFlight = None \<and> isLoadingEntries stoppedInFlight \<and>
   refreshIntervalId (step (TimerFires 2 (hostAt 4000) (hostAt 4000)) stoppedInFlight) = None \<and>
   \<not> isLoadingEntries (step (TimerFires 2 (hostAt 4000) (hostAt 4000)) stoppedInFlight) \<and>
   refreshIntervalId
     (step (Load (hostAt 9000))
        (step (TimerFires 2 (hostAt 4000) (hostAt 4000)) stoppedInFlight)) = None"
proof -
  let ?e = "TimerFires 2 (hostAt 4000) (hostAt 4000)"
  have s: "stoppedInFlight =
             run [StartRefresh, Load (stuckHost 1000), StopRefresh] (initial True (Some []))"
    by (simp add: stoppedInFlight_def emptyPanel_def)
  have n: "refreshIntervalId stoppedInFlight = None" and l: "isLoadingEntries stoppedInFlight"
    by (simp_all add: stoppedInFlight_def run_defs hostAt_def throwingHost_def stuckHost_def
        emptyPanel_def)
  have f: "\<not> isLoadingEntries (step ?e stoppedInFlight)"
    by (simp add: stoppedInFlight_def run_defs hostAt_def throwingHost_def stuckHost_def
        emptyPanel_def)
  have e: "?e \<noteq> StartRefresh" by simp
  from stopped_timer_stays_stopped [OF s n, of _ _ _ ?e] e
  have 1: "refreshIntervalId (step ?e stoppedInFlight) = None"
    by blast
  have s2: "step ?e stoppedInFlight =
             run [StartRefresh, Load (stuckHost 1000), StopRefresh, ?e] (initial True (Some []))"
    by (simp add: stoppedInFlight_def emptyPanel_def run_def)
  have "Load (hostAt 9000) \<noteq> StartRefresh" by simp
  with stopped_timer_stays_stopped [OF s2 1, of _ _ _ "Load (hostAt 9000)"]
  have 2: "refreshIntervalId (step (Load (hostAt 9000)) (step ?e stoppedInFlight)) = None"
    by blast
  from n l f 1 2 show ?thesis by blast
qed

section \<open>\<^verbatim>\<open>forceDisplayLastEntries\<close> keeps what is shown\<close>

text \<open>
  C9: \<^verbatim>\<open>forceDisplayLastEntries\<close> calls \<^verbatim>\<open>loadLastEntries\<close> only when the rendered Last
  Entries list is empty (with the interface active and the section found, and then it
  does); whenever the list already holds at least one row, no load is triggered and the
  state, the rendered rows with it, is left as it was.
\<close>

theorem force_display_keeps_rows:
  assumes "forceDisplayLastEntries h s = (r, s')"
  shows "(r \<noteq> None \<longleftrightarrow>
            interfaceActive h \<and> lastEntriesSection s \<and>
            (lastEntriesList s = None \<or> lastEntriesList s = Some [])) \<and>
         (\<forall>row rows. lastEntriesList s = Some (row # rows) \<longrightarrow> r = None \<and> s' = s)"
  using assms
  by (auto simp: forceDisplayLastEntries_def Let_def split: if_splits prod.splits)

text \<open>C9 on a panel that shows one row.\<close>

theorem force_display_keeps_rows_witness:
  "lastEntriesList shownPanel = Some [listItem ''a2'' ''DOE - JANE Q''] \<and>
   forceDisplayLastEntries (hostAt 1000) shownPanel = (None, shownPanel)"
proof -
  have l: "lastEntriesList shownPanel = Some (listItem ''a2'' ''DOE - JANE Q'' # [])"
    by (simp add: shownPanel_def initial_def)
  obtain r s' where f: "forceDisplayLastEntries (hostAt 1000) shownPanel = (r, s')"
    by (cases "forceDisplayLastEntries (hostAt 1000) shownPanel")
  from force_display_keeps_rows [OF f] l have "r = None \<and> s' = shownPanel" by blast
  with f l show ?thesis by simp
qed

section \<open>An empty folder is a success\<close>

text \<open>
  C10: a load cycle (a call that passes the two guards and finds or creates the list)
  that finds the PC Records folder missing, or holding no records, is recorded as a
  success, not a failure: it renders exactly one "No recent entries found" row, updates
  \<^verbatim>\<open>lastSuccessfulLoad\<close> to the current time, resets \<^verbatim>\<open>consecutiveErrors\<close> to 0, and a
  further trigger within the next 300ms is skipped by the guard.
\<close>

theorem empty_folder_is_success:
  assumes "\<not> isLoadingEntries s" and "300 \<le> dateNow h - lastSuccessfulLoad s"
    and "lastEntriesList s \<noteq> None \<or> lastEntriesSection s"
    and "foldersFind h = Inr None \<or>
         (\<exists>f actors. foldersFind h = Inr (Some f) \<and> gameActors h = Inr actors \<and>
                      filter (inFolder f) actors = [])"
    and "loadLastEntries h s = (r, s')"
  shows "r = NoEntries \<and> lastEntriesList s' = Some [noEntriesItem] \<and>
         lastSuccessfulLoad s' = dateNowFinish h \<and> consecutiveErrors s' = 0 \<and>
         \<not> isLoadingEntries s' \<and>
         (\<forall>h'. dateNow h' - dateNowFinish h < 300 \<longrightarrow>
               loadLastEntries h' s' = (SkippedTooFrequent, s'))"
proof -
  have r: "r = NoEntries" and l: "lastEntriesList s' = Some [noEntriesItem]"
    using assms
    by (auto simp: loadLastEntries_def loadBody_def setTimer_def createEntriesList_def
        hasActorsInFolder_def Let_def split: if_splits option.splits)
  from loadLastEntries_success [OF assms(5)] r
  have f: "\<not> isLoadingEntries s'" "lastSuccessfulLoad s' = dateNowFinish h"
    "consecutiveErrors s' = 0" by simp_all
  then have "loadLastEntries h' s' = (SkippedTooFrequent, s')"
    if "dateNow h' - dateNowFinish h < 300" for h'
    using that by (simp add: loadLastEntries_debounced)
  with r l f show ?thesis by blast
qed

text \<open>C10 on the empty panel, with no folder: a cycle at 1000, a trigger at 1200.\<close>

theorem empty_folder_is_success_witness:
  "fst (loadLastEntries (hostAt 1000) emptyPanel) = NoEntries \<and>
   lastEntriesList (snd (loadLastEntries (hostAt 1000) emptyPanel)) = Some [noEntriesItem] \<and>
   consecutiveErrors (snd (loadLastEntries (hostAt 1000) emptyPanel)) = 0 \<and>
   loadLastEntries (hostAt 1200) (snd (loadLastEntries (hostAt 1000) emptyPanel)) =
     (SkippedTooFrequent, snd (loadLastEntries (hostAt 1000) emptyPanel))"
proof -
  let ?s' = "snd (loadLastEntries (hostAt 1000) emptyPanel)"
  have 1: "\<not> isLoadingEntries emptyPanel"
    and 2: "300 \<le> dateNow (hostAt 1000) - lastSuccessfulLoad emptyPanel"
    and 3: "lastEntriesList emptyPanel \<noteq> None \<or> lastEntriesSection emptyPanel"
    and 4: "foldersFind (hostAt 1000) = Inr None \<or>
            (\<exists>f actors. foldersFind (hostAt 1000) = Inr (Some f) \<and>
               gameActors (hostAt 1000) = Inr actors \<and> filter (inFolder f) actors = [])"
    by (simp_all add: emptyPanel_def initial_def hostAt_def)
  have 5: "loadLastEntries (hostAt 1000) emptyPanel =
             (fst (loadLastEntries (hostAt 1000) emptyPanel), ?s')" by simp
  have 6: "dateNow (hostAt 1200) - dateNowFinish (hostAt 1000) < 300"
    by (simp add: hostAt_def)
  from empty_folder_is_success [OF 1 2 3 4 5] 6 show ?thesis by blast
qed

end
